theory Spec2Isabelle
  imports Main
begin

section \<open>The board of warship\_game.py\<close>

text \<open>
  A board is Python's \<open>[[str]]\<close>: a list of rows, each a list of one-character markers.
  The markers are plain strings: \<open>''~''\<close> is the filler (an empty cell), \<open>''@''\<close> a miss,
  \<open>''X''\<close> a hit, and any other string a ship cell. Rows are created one by one by
  \<open>generate_board\<close> (no two rows are the same object), so a board is modelled by value.

  A function that mutates the board in place is modelled by state passing: it returns the
  board as it is when the call ends, paired with what the call returns or raises.
\<close>

type_synonym board = "string list list"

datatype py_error = KeyError | IndexError | ValueError

text \<open>
  Python's list subscript: an index \<open>i\<close> with \<open>0 \<le> i < n\<close> addresses position \<open>i\<close>, an index
  with \<open>-n \<le> i < 0\<close> addresses position \<open>n + i\<close>, anything else raises IndexError.
\<close>

definition py_index :: "nat \<Rightarrow> int \<Rightarrow> py_error + nat" where
  "py_index n i =
     (if 0 \<le> i \<and> i < int n then Inr (nat i)
      else if - int n \<le> i \<and> i < 0 then Inr (nat (int n + i))
      else Inl IndexError)"

text \<open>The read \<open>board[r][c]\<close>.\<close>

definition board_get :: "board \<Rightarrow> int \<Rightarrow> int \<Rightarrow> py_error + string" where
  "board_get b r c =
     (case py_index (length b) r of
        Inl e \<Rightarrow> Inl e
      | Inr i \<Rightarrow>
          (case py_index (length (b ! i)) c of
             Inl e \<Rightarrow> Inl e
           | Inr j \<Rightarrow> Inr (b ! i ! j)))"

text \<open>The assignment \<open>board[r][c] = v\<close>: the row is fetched, then its item is stored.\<close>

definition board_set :: "board \<Rightarrow> int \<Rightarrow> int \<Rightarrow> string \<Rightarrow> py_error + board" where
  "board_set b r c v =
     (case py_index (length b) r of
        Inl e \<Rightarrow> Inl e
      | Inr i \<Rightarrow>
          (case py_index (length (b ! i)) c of
             Inl e \<Rightarrow> Inl e
           | Inr j \<Rightarrow> Inr (b[i := (b ! i)[j := v]])))"

text \<open>\<open>range(n)\<close> as the list of its values; it is empty when \<open>n \<le> 0\<close>.\<close>

definition py_range :: "int \<Rightarrow> int list" where
  "py_range n = map int [0..<nat n]"

definition SHIPS_LEN :: "string \<rightharpoonup> int" where
  "SHIPS_LEN = map_of [(''A'', 5), (''B'', 4), (''S'', 3), (''D'', 3), (''P'', 2)]"

definition generate_board :: "int \<Rightarrow> string \<Rightarrow> board" where
  "generate_board dim filler = replicate (nat dim) (replicate (nat dim) filler)"

text \<open>A board of ten rows of ten cells, the shape \<open>generate_board\<close> gives by default.\<close>

definition is_board10 :: "board \<Rightarrow> bool" where
  "is_board10 b = (length b = 10 \<and> list_all (\<lambda>row. length row = 10) b)"

section \<open>Placement\<close>

text \<open>
  The two loops of \<open>validate_bounds\<close>: the cells of the run are read in order, the first
  one that is not the filler ends the loop with False.
\<close>

fun scan_v :: "board \<Rightarrow> int \<Rightarrow> int \<Rightarrow> string \<Rightarrow> int list \<Rightarrow> py_error + bool" where
  "scan_v b row col filler [] = Inr True"
| "scan_v b row col filler (i # is) =
     (case board_get b (row + i) col of
        Inl e \<Rightarrow> Inl e
      | Inr x \<Rightarrow> if x \<noteq> filler then Inr False else scan_v b row col filler is)"

fun scan_h :: "board \<Rightarrow> int \<Rightarrow> int \<Rightarrow> string \<Rightarrow> int list \<Rightarrow> py_error + bool" where
  "scan_h b row col filler [] = Inr True"
| "scan_h b row col filler (i # is) =
     (case board_get b row (col + i) of
        Inl e \<Rightarrow> Inl e
      | Inr x \<Rightarrow> if x \<noteq> filler then Inr False else scan_h b row col filler is)"

definition validate_bounds ::
  "board \<Rightarrow> int \<Rightarrow> int \<Rightarrow> int \<Rightarrow> string \<Rightarrow> string \<Rightarrow> py_error + bool" where
  "validate_bounds b row col ship_len orientation filler =
     (if orientation = ''v'' \<and> row + ship_len < 10 then
        scan_v b row col filler (py_range ship_len)
      else if orientation = ''h'' \<and> col + ship_len < 10 then
        scan_h b row col filler (py_range ship_len)
      else if orientation \<notin> set [''h'', ''v''] then Inr False
      else if row + ship_len \<ge> 10 \<or> col + ship_len \<ge> 10 then Inr False
      else Inr True)"

text \<open>
  The two writing loops of \<open>place_ship\<close>. A write that raises leaves the board as the
  earlier writes made it.
\<close>

fun put_v :: "board \<Rightarrow> int \<Rightarrow> int \<Rightarrow> string \<Rightarrow> int list \<Rightarrow> board \<times> (py_error + unit)" where
  "put_v b row col ship [] = (b, Inr ())"
| "put_v b row col ship (i # is) =
     (case board_set b (row + i) col ship of
        Inl e \<Rightarrow> (b, Inl e)
      | Inr b' \<Rightarrow> put_v b' row col ship is)"

fun put_h :: "board \<Rightarrow> int \<Rightarrow> int \<Rightarrow> string \<Rightarrow> int list \<Rightarrow> board \<times> (py_error + unit)" where
  "put_h b row col ship [] = (b, Inr ())"
| "put_h b row col ship (i # is) =
     (case board_set b row (col + i) ship of
        Inl e \<Rightarrow> (b, Inl e)
      | Inr b' \<Rightarrow> put_h b' row col ship is)"

text \<open>
  \<open>place_ship\<close> returns \<open>(False, board.copy())\<close> or \<open>(True, board)\<close>, or raises. The model
  gives the board after the call (which is also the board returned) and the flag or the
  exception. \<open>validate_bounds\<close> is called without a filler, so with its default \<open>''~''\<close>.
\<close>

definition place_ship ::
  "int \<Rightarrow> int \<Rightarrow> board \<Rightarrow> string \<Rightarrow> string \<Rightarrow> board \<times> (py_error + bool)" where
  "place_ship row col b ship orientation =
     (case SHIPS_LEN ship of
        None \<Rightarrow> (b, Inl KeyError)
      | Some ship_len \<Rightarrow>
          (case validate_bounds b row col ship_len orientation ''~'' of
             Inl e \<Rightarrow> (b, Inl e)
           | Inr valid \<Rightarrow>
               if \<not> valid then (b, Inr False)
               else if orientation = ''v'' then
                 (case put_v b row col ship (py_range ship_len) of
                    (b', Inl e) \<Rightarrow> (b', Inl e)
                  | (b', Inr u) \<Rightarrow> (b', Inr True))
               else if orientation = ''h'' then
                 (case put_h b row col ship (py_range ship_len) of
                    (b', Inl e) \<Rightarrow> (b', Inl e)
                  | (b', Inr u) \<Rightarrow> (b', Inr True))
               else (b, Inl ValueError)))"

section \<open>The state codec\<close>

text \<open>
  \<open>get_state\<close> walks the rows and their cells with \<open>enumerate\<close> and appends a triple for
  every cell that is not the literal \<open>''~''\<close> (the \<open>filler\<close> parameter is not used).
\<close>

definition get_state :: "board \<Rightarrow> string \<Rightarrow> (string \<times> int \<times> int) list" where
  "get_state b filler =
     concat (map (\<lambda>(ri, row).
        map (\<lambda>(ci, x). (x, int ri, int ci))
          (filter (\<lambda>(ci, x). x \<noteq> ''~'') (enumerate 0 row)))
       (enumerate 0 b))"

fun set_state :: "board \<Rightarrow> (string \<times> int \<times> int) list \<Rightarrow> board \<times> (py_error + unit)" where
  "set_state b [] = (b, Inr ())"
| "set_state b ((ship, ri, ci) # st) =
     (case board_set b ri ci ship of
        Inl e \<Rightarrow> (b, Inl e)
      | Inr b' \<Rightarrow> set_state b' st)"

text \<open>
  \<open>io_load_board\<close> reads the records of the save file and hands them to \<open>set_state\<close> with a
  fresh board. The records, once parsed, are the argument here. When \<open>set_state\<close> raises,
  the fresh board is lost with the call.
\<close>

definition io_load_board :: "(string \<times> int \<times> int) list \<Rightarrow> string \<Rightarrow> py_error + board" where
  "io_load_board state custom_filler =
     (case set_state (generate_board 10 custom_filler) state of
        (b, Inl e) \<Rightarrow> Inl e
      | (b, Inr u) \<Rightarrow> Inr b)"

section \<open>Queries on the board\<close>

definition get_turn :: "board \<Rightarrow> string list \<Rightarrow> int" where
  "get_turn b only =
     (\<Sum>t \<leftarrow> filter (\<lambda>i. i) (map (\<lambda>e. e \<in> set only) (concat b)). if t then 1 else 0) + 1"

definition win_condition :: "board \<Rightarrow> string list \<Rightarrow> bool" where
  "win_condition b ignore = list_all (\<lambda>entry. entry \<in> set ignore) (concat b)"

text \<open>
  \<open>any\<close> over a lazy \<open>map\<close>: the checks run in order, the first true one ends the scan, and
  a check that raises ends it with the exception.
\<close>

fun py_any :: "(py_error + bool) list \<Rightarrow> py_error + bool" where
  "py_any [] = Inr False"
| "py_any (Inl e # xs) = Inl e"
| "py_any (Inr t # xs) = (if t then Inr True else py_any xs)"

definition radar_valid :: "int \<Rightarrow> int \<Rightarrow> int \<times> int \<Rightarrow> bool" where
  "radar_valid r c t =
     (r + fst t < 10 \<and> c + fst t > - 1 \<and> r + snd t < 10 \<and> c + snd t > - 1)"

definition radar_scan :: "board \<Rightarrow> int \<Rightarrow> int \<Rightarrow> string list \<Rightarrow> py_error + bool" where
  "radar_scan b r c ignore =
     py_any (map (\<lambda>t. case board_get b (r + fst t) (c + snd t) of
                         Inl e \<Rightarrow> Inl e
                       | Inr x \<Rightarrow> Inr (x \<notin> set ignore))
               (filter (radar_valid r c) (List.product [- 1, 0, 1] [- 1, 0, 1])))"

section \<open>The game loop\<close>

text \<open>
  The last part of \<open>game_loop\<close>, from the read of \<open>board[r][c]\<close> to the branch taken, without
  the call of \<open>game_loop\<close> that ends each branch. The flag tells whether the radar printed
  its hint.
\<close>

datatype shot = AlreadyTargeted | Hit | Miss | NoShot

definition radar_hint :: "bool \<Rightarrow> board \<Rightarrow> int \<Rightarrow> int \<Rightarrow> py_error + bool" where
  "radar_hint radar b r c =
     (if radar then radar_scan b r c [''@'', ''X'', ''~''] else Inr False)"

definition resolve_shot ::
  "board \<Rightarrow> bool \<Rightarrow> string \<Rightarrow> int \<Rightarrow> int \<Rightarrow> board \<times> (py_error + shot \<times> bool)" where
  "resolve_shot b radar filler r c =
     (case board_get b r c of
        Inl e \<Rightarrow> (b, Inl e)
      | Inr hit_miss \<Rightarrow>
          if hit_miss = ''@'' \<or> hit_miss = ''X'' then (b, Inr (AlreadyTargeted, False))
          else if hit_miss \<noteq> filler \<and> hit_miss \<noteq> ''@'' then
            (case board_set b r c ''X'' of
               Inl e \<Rightarrow> (b, Inl e)
             | Inr b' \<Rightarrow>
                 (case radar_hint radar b' r c of
                    Inl e \<Rightarrow> (b', Inl e)
                  | Inr near \<Rightarrow> (b', Inr (Hit, near))))
          else if hit_miss = filler then
            (case board_set b r c ''@'' of
               Inl e \<Rightarrow> (b, Inl e)
             | Inr b' \<Rightarrow>
                 (case radar_hint radar b' r c of
                    Inl e \<Rightarrow> (b', Inl e)
                  | Inr near \<Rightarrow> (b', Inr (Miss, near))))
          else (b, Inr (NoShot, False)))"

text \<open>
  \<open>io_validate_input\<close> accepts the ten strings \<open>''0''\<close> to \<open>''9''\<close>, and \<open>int\<close> then reads
  the digit: both at once are a lookup in the table of the ten digits.
\<close>

definition io_validate_input :: "string \<Rightarrow> int option" where
  "io_validate_input val =
     map_of [(''0'', 0), (''1'', 1), (''2'', 2), (''3'', 3), (''4'', 4),
             (''5'', 5), (''6'', 6), (''7'', 7), (''8'', 8), (''9'', 9)] val"

text \<open>
  How a session ends. \<open>game_loop\<close> never returns: it hands over to the win screen, to the
  main menu (out of ammunition, or saved with \<open>m\<close>), calls itself, or an exception ends it.
  The lines typed by the player are the list \<open>inputs\<close>; when they are used up the loop
  waits for input. Rendering and the cheat display only print, and are left out.
  Every call that \<open>game_loop\<close> makes of itself passes neither \<open>filler\<close> nor \<open>turns\<close>, so
  they are \<open>''~''\<close> and 20 from the second round on.
\<close>

datatype ending = Won | OutOfAmmo | SavedToMenu | AwaitingInput | Raised py_error

fun game_loop :: "board \<Rightarrow> bool \<Rightarrow> string \<Rightarrow> int \<Rightarrow> string list \<Rightarrow> board \<times> ending" where
  "game_loop b radar filler turns inputs =
     (if win_condition b [''X'', ''@'', ''~''] then (b, Won)
      else if get_turn b [''@'', ''X''] = turns then (b, OutOfAmmo)
      else
        (case inputs of
           [] \<Rightarrow> (b, AwaitingInput)
         | r # rest \<Rightarrow>
             if r = ''m'' then (b, SavedToMenu)
             else
               (case rest of
                  [] \<Rightarrow> (b, AwaitingInput)
                | c # rest' \<Rightarrow>
                    if c = ''m'' then (b, SavedToMenu)
                    else
                      (case (io_validate_input r, io_validate_input c) of
                         (Some ri, Some ci) \<Rightarrow>
                           (case resolve_shot b radar filler ri ci of
                              (b', Inl e) \<Rightarrow> (b', Raised e)
                            | (b', Inr out) \<Rightarrow> game_loop b' radar ''~'' 20 rest')
                       | _ \<Rightarrow> game_loop b radar ''~'' 20 rest'))))"

text \<open>
  The run of a placement: the \<open>n\<close> cells from \<open>(row, col)\<close> downwards for \<open>''v''\<close>, to the
  right otherwise.
\<close>

definition in_run :: "string \<Rightarrow> int \<Rightarrow> int \<Rightarrow> int \<Rightarrow> int \<Rightarrow> int \<Rightarrow> bool" where
  "in_run orientation row col n r c =
     (if orientation = ''v'' then c = col \<and> row \<le> r \<and> r < row + n
      else r = row \<and> col \<le> c \<and> c < col + n)"

text \<open>
  What \<open>set_state\<close> leaves in a board of ten rows of ten cells. A triple is in reach
  when both its coordinates lie in \<open>[-10, 10)\<close>, the indices a Python list of length 10
  accepts. \<open>last_write st r c\<close> is the marker of the last triple of \<open>st\<close> that addresses
  the cell \<open>(r, c)\<close>, a negative coordinate counting from the end, if there is one.
\<close>

definition in_reach :: "string \<times> int \<times> int \<Rightarrow> bool" where
  "in_reach t = (case t of (m, r, c) \<Rightarrow> - 10 \<le> r \<and> r < 10 \<and> - 10 \<le> c \<and> c < 10)"

fun last_write :: "(string \<times> int \<times> int) list \<Rightarrow> int \<Rightarrow> int \<Rightarrow> string option" where
  "last_write [] r c = None"
| "last_write ((m, ri, ci) # st) r c =
     (case last_write st r c of
        Some m' \<Rightarrow> Some m'
      | None \<Rightarrow> if ri mod 10 = r \<and> ci mod 10 = c then Some m else None)"

section \<open>Reading and writing cells\<close>

lemma py_index_lt: "py_index n i = Inr k \<Longrightarrow> k < n"
  by (auto simp: py_index_def split: if_splits)

lemma py_index_error: "py_index n i = Inl e \<Longrightarrow> e = IndexError"
  by (auto simp: py_index_def split: if_splits)

lemma board_set_cases:
  assumes "board_set b r c v = Inr b'"
  obtains i j where "py_index (length b) r = Inr i" "py_index (length (b ! i)) c = Inr j"
    "i < length b" "j < length (b ! i)" "b' = b[i := (b ! i)[j := v]]"
  using assms by (auto simp: board_set_def dest: py_index_lt split: sum.splits)

lemma board_get_cases:
  assumes "board_get b r c = Inr x"
  obtains i j where "py_index (length b) r = Inr i" "py_index (length (b ! i)) c = Inr j"
    "i < length b" "j < length (b ! i)" "x = b ! i ! j"
  using assms by (auto simp: board_get_def dest: py_index_lt split: sum.splits)

lemma board_set_length: "board_set b r c v = Inr b' \<Longrightarrow> length b' = length b"
  by (erule board_set_cases) simp

lemma board_set_row_length:
  "board_set b r c v = Inr b' \<Longrightarrow> k < length b \<Longrightarrow> length (b' ! k) = length (b ! k)"
  by (erule board_set_cases) (simp add: nth_list_update)

lemma board_get_set:
  assumes s: "board_set b r c v = Inr b'" and g: "board_get b r' c' = Inr y"
  shows "board_get b' r' c' = Inr y \<or> (board_get b' r' c' = Inr v \<and> board_get b r c = Inr y)"
proof -
  from s obtain i j where ij: "py_index (length b) r = Inr i" "py_index (length (b ! i)) c = Inr j"
    "i < length b" "j < length (b ! i)" "b' = b[i := (b ! i)[j := v]]"
    by (rule board_set_cases)
  from g obtain i' j' where ij': "py_index (length b) r' = Inr i'"
    "py_index (length (b ! i')) c' = Inr j'" "i' < length b" "j' < length (b ! i')" "y = b ! i' ! j'"
    by (rule board_get_cases)
  have l: "length (b' ! i') = length (b ! i')"
    using s ij'(3) by (rule board_set_row_length)
  have g': "board_get b' r' c' = Inr (b' ! i' ! j')"
    using ij' l ij(5) by (simp add: board_get_def)
  have gb: "board_get b r c = Inr (b ! i ! j)"
    using ij by (simp add: board_get_def)
  show ?thesis
    using g' gb ij ij' by (auto simp: nth_list_update split: if_splits)
qed

lemma board_get_defined_set:
  assumes s: "board_set b r c v = Inr b'" and g: "board_get b r' c' = Inr y"
  shows "\<exists>y'. board_get b' r' c' = Inr y'"
  using board_get_set [OF s g] by auto

lemma board_set_total: "board_get b r c = Inr x \<Longrightarrow> \<exists>b'. board_set b r c v = Inr b'"
  by (auto simp: board_get_def board_set_def split: sum.splits)

lemma scan_v_True:
  "scan_v b row col filler is = Inr True \<Longrightarrow> i \<in> set is \<Longrightarrow> board_get b (row + i) col = Inr filler"
  by (induction "is") (auto split: sum.splits if_splits)

lemma scan_h_True:
  "scan_h b row col filler is = Inr True \<Longrightarrow> i \<in> set is \<Longrightarrow> board_get b row (col + i) = Inr filler"
  by (induction "is") (auto split: sum.splits if_splits)

lemma put_v_total:
  "(\<And>i. i \<in> set is \<Longrightarrow> \<exists>x. board_get b (row + i) col = Inr x) \<Longrightarrow>
   \<exists>b'. put_v b row col ship is = (b', Inr ())"
proof (induction "is" arbitrary: b)
  case Nil
  then show ?case by simp
next
  case (Cons i "is")
  from Cons.prems obtain x where "board_get b (row + i) col = Inr x" by auto
  then obtain b1 where b1: "board_set b (row + i) col ship = Inr b1"
    using board_set_total by blast
  have "\<And>k. k \<in> set is \<Longrightarrow> \<exists>x. board_get b1 (row + k) col = Inr x"
    using Cons.prems board_get_defined_set [OF b1] by fastforce
  from Cons.IH [OF this] show ?case using b1 by simp
qed

lemma put_h_total:
  "(\<And>i. i \<in> set is \<Longrightarrow> \<exists>x. board_get b row (col + i) = Inr x) \<Longrightarrow>
   \<exists>b'. put_h b row col ship is = (b', Inr ())"
proof (induction "is" arbitrary: b)
  case Nil
  then show ?case by simp
next
  case (Cons i "is")
  from Cons.prems obtain x where "board_get b row (col + i) = Inr x" by auto
  then obtain b1 where b1: "board_set b row (col + i) ship = Inr b1"
    using board_set_total by blast
  have "\<And>k. k \<in> set is \<Longrightarrow> \<exists>x. board_get b1 row (col + k) = Inr x"
    using Cons.prems board_get_defined_set [OF b1] by fastforce
  from Cons.IH [OF this] show ?case using b1 by simp
qed

lemma validate_bounds_True:
  "validate_bounds b row col n ori filler = Inr True \<Longrightarrow>
   (ori = ''v'' \<and> row + n < 10 \<and> scan_v b row col filler (py_range n) = Inr True) \<or>
   (ori = ''h'' \<and> col + n < 10 \<and> scan_h b row col filler (py_range n) = Inr True)"
  by (auto simp: validate_bounds_def split: if_splits)

subsection \<open>Boards of ten rows of ten cells\<close>

lemma is_board10_row: "is_board10 b \<Longrightarrow> r < 10 \<Longrightarrow> length (b ! r) = 10"
  by (simp add: is_board10_def list_all_length)

lemma board_get_10:
  "is_board10 b \<Longrightarrow> 0 \<le> r \<Longrightarrow> r < 10 \<Longrightarrow> 0 \<le> c \<Longrightarrow> c < 10 \<Longrightarrow>
   board_get b r c = Inr (b ! nat r ! nat c)"
  using is_board10_row [of b "nat r"]
  by (simp add: board_get_def py_index_def is_board10_def)

lemma board_set_10:
  "is_board10 b \<Longrightarrow> 0 \<le> r \<Longrightarrow> r < 10 \<Longrightarrow> 0 \<le> c \<Longrightarrow> c < 10 \<Longrightarrow>
   board_set b r c v = Inr (b[nat r := (b ! nat r)[nat c := v]])"
  using is_board10_row [of b "nat r"]
  by (simp add: board_set_def py_index_def is_board10_def)

lemma is_board10_update:
  "is_board10 b \<Longrightarrow> is_board10 (b[i := (b ! i)[j := v]])"
  by (cases "i < length b") (auto simp: is_board10_def list_all_length nth_list_update)

lemma board_get_update_10:
  assumes "is_board10 b" "0 \<le> r" "r < 10" "0 \<le> c" "c < 10" "0 \<le> r'" "r' < 10" "0 \<le> c'" "c' < 10"
  shows "board_get (b[nat r := (b ! nat r)[nat c := v]]) r' c' =
         (if r' = r \<and> c' = c then Inr v else board_get b r' c')"
proof -
  have l: "length (b ! nat r) = 10" "length b = 10"
    using assms is_board10_row [of b "nat r"] by (simp_all add: is_board10_def)
  have g: "board_get (b[nat r := (b ! nat r)[nat c := v]]) r' c' =
      Inr (b[nat r := (b ! nat r)[nat c := v]] ! nat r' ! nat c')"
    using assms by (intro board_get_10 is_board10_update)
  have g0: "board_get b r' c' = Inr (b ! nat r' ! nat c')"
    using assms by (intro board_get_10)
  show ?thesis
    unfolding g g0 using assms l by (simp add: nth_list_update nat_eq_iff)
qed

lemma py_range_iff: "i \<in> set (py_range n) \<longleftrightarrow> 0 \<le> i \<and> i < n"
  by (auto simp: py_range_def image_int_atLeastLessThan)


lemma put_v_cells:
  assumes "is_board10 b" and "0 \<le> col" and "col < 10"
    and "\<And>i. i \<in> set is \<Longrightarrow> 0 \<le> row + i \<and> row + i < 10"
  shows "\<exists>b'. put_v b row col ship is = (b', Inr ()) \<and> is_board10 b' \<and>
     (\<forall>r c. 0 \<le> r \<and> r < 10 \<and> 0 \<le> c \<and> c < 10 \<longrightarrow>
        board_get b' r c = (if c = col \<and> (\<exists>k\<in>set is. r = row + k) then Inr ship else board_get b r c))"
  using assms
proof (induction "is" arbitrary: b)
  case Nil
  then show ?case by simp
next
  case (Cons i "is")
  let ?b1 = "b[nat (row + i) := (b ! nat (row + i))[nat col := ship]]"
  have s: "board_set b (row + i) col ship = Inr ?b1"
    using Cons.prems by (simp add: board_set_10)
  have w: "is_board10 ?b1" using Cons.prems(1) by (rule is_board10_update)
  have "\<exists>b'. put_v ?b1 row col ship is = (b', Inr ()) \<and> is_board10 b' \<and>
     (\<forall>r c. 0 \<le> r \<and> r < 10 \<and> 0 \<le> c \<and> c < 10 \<longrightarrow>
        board_get b' r c = (if c = col \<and> (\<exists>k\<in>set is. r = row + k) then Inr ship else board_get ?b1 r c))"
    using Cons.prems by (intro Cons.IH w) simp_all
  then obtain b' where p: "put_v ?b1 row col ship is = (b', Inr ())" and w': "is_board10 b'"
     and c: "\<And>r c. 0 \<le> r \<and> r < 10 \<and> 0 \<le> c \<and> c < 10 \<Longrightarrow>
        board_get b' r c = (if c = col \<and> (\<exists>k\<in>set is. r = row + k) then Inr ship else board_get ?b1 r c)"
    by blast
  have u: "\<And>r c. 0 \<le> r \<and> r < 10 \<and> 0 \<le> c \<and> c < 10 \<Longrightarrow>
      board_get ?b1 r c = (if r = row + i \<and> c = col then Inr ship else board_get b r c)"
    using Cons.prems by (simp add: board_get_update_10)
  have "put_v b row col ship (i # is) = (b', Inr ())"
    using s p by simp
  moreover have "\<forall>r c. 0 \<le> r \<and> r < 10 \<and> 0 \<le> c \<and> c < 10 \<longrightarrow>
        board_get b' r c =
          (if c = col \<and> (\<exists>k\<in>set (i # is). r = row + k) then Inr ship else board_get b r c)"
  proof (intro allI impI)
    fix r c :: int
    assume rc: "0 \<le> r \<and> r < 10 \<and> 0 \<le> c \<and> c < 10"
    show "board_get b' r c =
          (if c = col \<and> (\<exists>k\<in>set (i # is). r = row + k) then Inr ship else board_get b r c)"
      unfolding c [OF rc] u [OF rc] by auto
  qed
  ultimately show ?case using w' by blast
qed

lemma put_h_cells:
  assumes "is_board10 b" and "0 \<le> row" and "row < 10"
    and "\<And>i. i \<in> set is \<Longrightarrow> 0 \<le> col + i \<and> col + i < 10"
  shows "\<exists>b'. put_h b row col ship is = (b', Inr ()) \<and> is_board10 b' \<and>
     (\<forall>r c. 0 \<le> r \<and> r < 10 \<and> 0 \<le> c \<and> c < 10 \<longrightarrow>
        board_get b' r c = (if r = row \<and> (\<exists>k\<in>set is. c = col + k) then Inr ship else board_get b r c))"
  using assms
proof (induction "is" arbitrary: b)
  case Nil
  then show ?case by simp
next
  case (Cons i "is")
  let ?b1 = "b[nat row := (b ! nat row)[nat (col + i) := ship]]"
  have s: "board_set b row (col + i) ship = Inr ?b1"
    using Cons.prems by (simp add: board_set_10)
  have w: "is_board10 ?b1" using Cons.prems(1) by (rule is_board10_update)
  have "\<exists>b'. put_h ?b1 row col ship is = (b', Inr ()) \<and> is_board10 b' \<and>
     (\<forall>r c. 0 \<le> r \<and> r < 10 \<and> 0 \<le> c \<and> c < 10 \<longrightarrow>
        board_get b' r c = (if r = row \<and> (\<exists>k\<in>set is. c = col + k) then Inr ship else board_get ?b1 r c))"
    using Cons.prems by (intro Cons.IH w) simp_all
  then obtain b' where p: "put_h ?b1 row col ship is = (b', Inr ())" and w': "is_board10 b'"
     and c: "\<And>r c. 0 \<le> r \<and> r < 10 \<and> 0 \<le> c \<and> c < 10 \<Longrightarrow>
        board_get b' r c = (if r = row \<and> (\<exists>k\<in>set is. c = col + k) then Inr ship else board_get ?b1 r c)"
    by blast
  have u: "\<And>r c. 0 \<le> r \<and> r < 10 \<and> 0 \<le> c \<and> c < 10 \<Longrightarrow>
      board_get ?b1 r c = (if r = row \<and> c = col + i then Inr ship else board_get b r c)"
    using Cons.prems by (simp add: board_get_update_10)
  have "put_h b row col ship (i # is) = (b', Inr ())"
    using s p by simp
  moreover have "\<forall>r c. 0 \<le> r \<and> r < 10 \<and> 0 \<le> c \<and> c < 10 \<longrightarrow>
        board_get b' r c =
          (if r = row \<and> (\<exists>k\<in>set (i # is). c = col + k) then Inr ship else board_get b r c)"
  proof (intro allI impI)
    fix r c :: int
    assume rc: "0 \<le> r \<and> r < 10 \<and> 0 \<le> c \<and> c < 10"
    show "board_get b' r c =
          (if r = row \<and> (\<exists>k\<in>set (i # is). c = col + k) then Inr ship else board_get b r c)"
      unfolding c [OF rc] u [OF rc] by auto
  qed
  ultimately show ?case using w' by blast
qed

lemma card_run: "0 \<le> n \<Longrightarrow> card {(r, c). in_run ori row col n r c} = nat n"
proof (cases "ori = ''v''")
  case True
  have "{(r, c). in_run ori row col n r c} = (\<lambda>r. (r, col)) ` {row..<row + n}"
    using True by (auto simp: in_run_def)
  then show ?thesis by (simp add: card_image inj_on_def)
next
  case False
  have "{(r, c). in_run ori row col n r c} = (\<lambda>c. (row, c)) ` {col..<col + n}"
    using False by (auto simp: in_run_def)
  then show ?thesis by (simp add: card_image inj_on_def)
qed

lemma SHIPS_LEN_range: "SHIPS_LEN ship = Some n \<Longrightarrow> 2 \<le> n \<and> n \<le> 5"
  by (auto simp: SHIPS_LEN_def split: if_splits)

subsection \<open>What a shot and a session write\<close>

declare game_loop.simps [simp del]

lemma resolve_shot_targeted:
  "board_get b r c = Inr x \<Longrightarrow> x = ''@'' \<or> x = ''X'' \<Longrightarrow>
   resolve_shot b radar filler r c = (b, Inr (AlreadyTargeted, False))"
  by (auto simp: resolve_shot_def)

lemma resolve_shot_board:
  "resolve_shot b radar filler r c = (b', out) \<Longrightarrow>
   b' = b \<or> (\<exists>v x. board_set b r c v = Inr b' \<and> board_get b r c = Inr x \<and> x \<noteq> ''@'' \<and> x \<noteq> ''X'')"
  by (auto simp: resolve_shot_def split: sum.splits if_splits)

lemma resolve_shot_keeps:
  assumes g: "board_get b r' c' = Inr y" and y: "y = ''@'' \<or> y = ''X''"
    and rs: "resolve_shot b radar filler r c = (b', out)"
  shows "board_get b' r' c' = Inr y"
  using resolve_shot_board [OF rs]
proof
  assume "b' = b"
  then show ?thesis using g by simp
next
  assume "\<exists>v x. board_set b r c v = Inr b' \<and> board_get b r c = Inr x \<and> x \<noteq> ''@'' \<and> x \<noteq> ''X''"
  then obtain v x where s: "board_set b r c v = Inr b'" and x: "board_get b r c = Inr x"
     "x \<noteq> ''@''" "x \<noteq> ''X''" by blast
  from board_get_set [OF s g] x y show ?thesis by auto
qed

lemma game_loop_cases:
  assumes "game_loop b radar filler turns inputs = (b', e)"
  shows "b' = b \<or>
    (\<exists>r c rest. inputs = r # c # rest \<and>
       (game_loop b radar ''~'' 20 rest = (b', e) \<or>
        (\<exists>ri ci b1 x. resolve_shot b radar filler ri ci = (b1, x) \<and>
           (b' = b1 \<or> game_loop b1 radar ''~'' 20 rest = (b', e)))))"
  using assms
  by (subst (asm) game_loop.simps)
     (auto split: if_splits list.splits option.splits prod.splits sum.splits)

lemma game_loop_keeps:
  "board_get b r' c' = Inr y \<Longrightarrow> y = ''@'' \<or> y = ''X'' \<Longrightarrow>
   game_loop b radar filler turns inputs = (b', e) \<Longrightarrow> board_get b' r' c' = Inr y"
proof (induction "length inputs" arbitrary: b radar filler turns inputs rule: less_induct)
  case less
  from game_loop_cases [OF less.prems(3)] show ?case
  proof (elim disjE exE conjE)
    assume "b' = b"
    then show ?thesis using less.prems(1) by simp
  next
    fix r c rest
    assume i: "inputs = r # c # rest" and g: "game_loop b radar ''~'' 20 rest = (b', e)"
    have "length rest < length inputs" using i by simp
    from less.hyps [OF this less.prems(1,2) g] show ?thesis .
  next
    fix r c rest ri ci b1 x
    assume i: "inputs = r # c # rest" and rs: "resolve_shot b radar filler ri ci = (b1, x)"
      and "b' = b1"
    then show ?thesis using resolve_shot_keeps [OF less.prems(1,2) rs] by simp
  next
    fix r c rest ri ci b1 x
    assume i: "inputs = r # c # rest" and rs: "resolve_shot b radar filler ri ci = (b1, x)"
      and g: "game_loop b1 radar ''~'' 20 rest = (b', e)"
    have l: "length rest < length inputs" using i by simp
    have k: "board_get b1 r' c' = Inr y" using resolve_shot_keeps [OF less.prems(1,2) rs] .
    from less.hyps [OF l k less.prems(2) g] show ?thesis .
  qed
qed

subsection \<open>The triples of \<open>get_state\<close>\<close>

lemma set_get_state:
  "(m, r, c) \<in> set (get_state g f) \<longleftrightarrow>
   (\<exists>i j. i < length g \<and> j < length (g ! i) \<and> r = int i \<and> c = int j \<and> m = g ! i ! j \<and> m \<noteq> ''~'')"
proof
  assume "(m, r, c) \<in> set (get_state g f)"
  then show "\<exists>i j. i < length g \<and> j < length (g ! i) \<and> r = int i \<and> c = int j \<and>
      m = g ! i ! j \<and> m \<noteq> ''~''"
    by (auto simp: get_state_def in_set_enumerate_eq)
next
  assume "\<exists>i j. i < length g \<and> j < length (g ! i) \<and> r = int i \<and> c = int j \<and>
      m = g ! i ! j \<and> m \<noteq> ''~''"
  then obtain i j where ij: "i < length g" "j < length (g ! i)" "r = int i" "c = int j"
    "m = g ! i ! j" "m \<noteq> ''~''" by blast
  have a: "(i, g ! i) \<in> set (enumerate 0 g)"
    using ij by (simp add: in_set_enumerate_eq)
  have b: "(j, m) \<in> set (filter (\<lambda>(ci, x). x \<noteq> ''~'') (enumerate 0 (g ! i)))"
    using ij by (simp add: in_set_enumerate_eq)
  let ?F = "\<lambda>(ri, row). map (\<lambda>(ci, x). (x, int ri, int ci))
          (filter (\<lambda>(ci, x). x \<noteq> ''~'') (enumerate 0 row))"
  have e: "(m, r, c) = (\<lambda>(ci, x). (x, int i, int ci)) (j, m)"
    using ij by simp
  have "(m, r, c) \<in> (\<lambda>(ci, x). (x, int i, int ci)) `
      set (filter (\<lambda>(ci, x). x \<noteq> ''~'') (enumerate 0 (g ! i)))"
    using e b by (rule image_eqI)
  then have "(m, r, c) \<in> set (?F (i, g ! i))"
    by (simp only: prod.case set_map)
  then have "\<exists>p\<in>set (enumerate 0 g). (m, r, c) \<in> set (?F p)"
    using a by (rule_tac bexI)
  then show "(m, r, c) \<in> set (get_state g f)"
    unfolding get_state_def by (simp only: set_concat set_map) blast
qed

lemma markers_get_state:
  "(\<exists>r c. (m, r, c) \<in> set (get_state g f)) \<longleftrightarrow> (m \<in> set (concat g) \<and> m \<noteq> ''~'')"
proof -
  have "m \<in> set (concat g) \<longleftrightarrow> (\<exists>row\<in>set g. m \<in> set row)"
    by simp
  also have "\<dots> \<longleftrightarrow> (\<exists>i<length g. m \<in> set (g ! i))"
    by (metis in_set_conv_nth)
  also have "\<dots> \<longleftrightarrow> (\<exists>i<length g. \<exists>j<length (g ! i). m = g ! i ! j)"
    by (metis in_set_conv_nth)
  finally have "m \<in> set (concat g) \<longleftrightarrow> (\<exists>i<length g. \<exists>j<length (g ! i). m = g ! i ! j)" .
  then show ?thesis unfolding set_get_state by blast
qed

lemma SHIPS_LEN_sentinels:
  "SHIPS_LEN ''X'' = None" "SHIPS_LEN ''@'' = None" "SHIPS_LEN ''~'' = None"
  by (simp_all add: SHIPS_LEN_def)

lemma ball_get_state:
  "(\<forall>(m, r, c)\<in>set (get_state g f). P m) \<longleftrightarrow> (\<forall>x\<in>set (concat g). x \<noteq> ''~'' \<longrightarrow> P x)"
proof -
  have "(\<forall>(m, r, c)\<in>set (get_state g f). P m) \<longleftrightarrow>
        (\<forall>m. (\<exists>r c. (m, r, c) \<in> set (get_state g f)) \<longrightarrow> P m)"
    by fast
  also have "\<dots> \<longleftrightarrow> (\<forall>m. m \<in> set (concat g) \<and> m \<noteq> ''~'' \<longrightarrow> P m)"
    by (simp only: markers_get_state)
  also have "\<dots> \<longleftrightarrow> (\<forall>x\<in>set (concat g). x \<noteq> ''~'' \<longrightarrow> P x)"
    by blast
  finally show ?thesis .
qed

lemma win_condition_concat:
  "win_condition g [''X'', ''@'', ''~''] \<longleftrightarrow>
      (\<forall>x\<in>set (concat g). x = ''X'' \<or> x = ''@'' \<or> x = ''~'')"
  by (simp add: win_condition_def list_all_iff)

lemma catalog_not_sentinel:
  "x \<in> dom SHIPS_LEN \<Longrightarrow> x \<noteq> ''X'' \<and> x \<noteq> ''@'' \<and> x \<noteq> ''~''"
  using SHIPS_LEN_sentinels by (auto simp: dom_def)

subsection \<open>What \<open>set_state\<close> writes\<close>

lemma mod_10_wrap: "- 10 \<le> (i::int) \<Longrightarrow> i < 0 \<Longrightarrow> i mod 10 = 10 + i"
  by presburger

lemma py_index_10: "- 10 \<le> i \<Longrightarrow> i < 10 \<Longrightarrow> py_index 10 i = Inr (nat (i mod 10))"
  by (auto simp: py_index_def mod_10_wrap)

lemma py_index_10_out: "\<not> (- 10 \<le> i \<and> i < 10) \<Longrightarrow> py_index 10 i = Inl IndexError"
  by (auto simp: py_index_def)

lemma board_set_wrap:
  assumes "is_board10 b" "- 10 \<le> r" "r < 10" "- 10 \<le> c" "c < 10"
  shows "board_set b r c v = Inr (b[nat (r mod 10) := (b ! nat (r mod 10))[nat (c mod 10) := v]])"
proof -
  have l: "length b = 10" using assms by (simp add: is_board10_def)
  have "nat (r mod 10) < 10" by simp
  then have l2: "length (b ! nat (r mod 10)) = 10" using assms(1) by (rule is_board10_row [rotated])
  show ?thesis using assms by (simp add: board_set_def l l2 py_index_10)
qed

lemma board_set_out:
  assumes "is_board10 b" "\<not> (- 10 \<le> r \<and> r < 10 \<and> - 10 \<le> c \<and> c < 10)"
  shows "board_set b r c v = Inl IndexError"
proof (cases "- 10 \<le> r \<and> r < 10")
  case False
  have l: "length b = 10" using assms by (simp add: is_board10_def)
  show ?thesis using False by (simp add: board_set_def l py_index_10_out)
next
  case True
  have l: "length b = 10" using assms by (simp add: is_board10_def)
  have "nat (r mod 10) < 10" by simp
  then have l2: "length (b ! nat (r mod 10)) = 10" using assms(1) by (rule is_board10_row [rotated])
  have "\<not> (- 10 \<le> c \<and> c < 10)" using assms True by simp
  then show ?thesis using True by (simp add: board_set_def l l2 py_index_10 py_index_10_out)
qed

lemma set_state_cells:
  assumes "is_board10 b" and "list_all in_reach st"
  shows "\<exists>b'. set_state b st = (b', Inr ()) \<and> is_board10 b' \<and>
     (\<forall>r c. 0 \<le> r \<and> r < 10 \<and> 0 \<le> c \<and> c < 10 \<longrightarrow>
        board_get b' r c = (case last_write st r c of Some m \<Rightarrow> Inr m | None \<Rightarrow> board_get b r c))"
  using assms
proof (induction st arbitrary: b)
  case Nil
  then show ?case by simp
next
  case (Cons t st)
  obtain m ri ci where t: "t = (m, ri, ci)" by (cases t) auto
  have it: "in_reach t" and rest: "list_all in_reach st"
    using Cons.prems(2) by simp_all
  have reach: "- 10 \<le> ri" "ri < 10" "- 10 \<le> ci" "ci < 10"
    using it by (simp_all add: t in_reach_def)
  let ?b1 = "b[nat (ri mod 10) := (b ! nat (ri mod 10))[nat (ci mod 10) := m]]"
  have s: "board_set b ri ci m = Inr ?b1"
    using Cons.prems(1) reach by (rule board_set_wrap)
  have w: "is_board10 ?b1" using Cons.prems(1) by (rule is_board10_update)
  from Cons.IH [OF w rest]
  obtain b' where p: "set_state ?b1 st = (b', Inr ())" and w': "is_board10 b'"
    and c: "\<And>r c. 0 \<le> r \<and> r < 10 \<and> 0 \<le> c \<and> c < 10 \<Longrightarrow>
        board_get b' r c = (case last_write st r c of Some m \<Rightarrow> Inr m | None \<Rightarrow> board_get ?b1 r c)"
    by blast
  have u: "\<And>r c. 0 \<le> r \<and> r < 10 \<and> 0 \<le> c \<and> c < 10 \<Longrightarrow>
      board_get ?b1 r c = (if r = ri mod 10 \<and> c = ci mod 10 then Inr m else board_get b r c)"
    using Cons.prems(1) board_get_update_10 [of b "ri mod 10" "ci mod 10" _ _ m] by simp
  have "set_state b (t # st) = (b', Inr ())"
    using s p by (simp add: t)
  moreover have "\<forall>r c. 0 \<le> r \<and> r < 10 \<and> 0 \<le> c \<and> c < 10 \<longrightarrow>
        board_get b' r c =
          (case last_write (t # st) r c of Some m \<Rightarrow> Inr m | None \<Rightarrow> board_get b r c)"
  proof (intro allI impI)
    fix r c :: int
    assume rc: "0 \<le> r \<and> r < 10 \<and> 0 \<le> c \<and> c < 10"
    show "board_get b' r c =
          (case last_write (t # st) r c of Some m \<Rightarrow> Inr m | None \<Rightarrow> board_get b r c)"
      unfolding c [OF rc] u [OF rc] t by (auto split: option.splits)
  qed
  ultimately show ?case using w' by blast
qed

lemma set_state_fails:
  assumes "is_board10 b" and "\<not> list_all in_reach st"
  shows "\<exists>b'. set_state b st = (b', Inl IndexError)"
  using assms
proof (induction st arbitrary: b)
  case Nil
  then show ?case by simp
next
  case (Cons t st)
  obtain m ri ci where t: "t = (m, ri, ci)" by (cases t) auto
  show ?case
  proof (cases "in_reach t")
    case False
    then have "board_set b ri ci m = Inl IndexError"
      using Cons.prems(1) by (intro board_set_out) (simp_all add: t in_reach_def)
    then show ?thesis by (simp add: t)
  next
    case True
    then have reach: "- 10 \<le> ri" "ri < 10" "- 10 \<le> ci" "ci < 10"
      by (simp_all add: t in_reach_def)
    let ?b1 = "b[nat (ri mod 10) := (b ! nat (ri mod 10))[nat (ci mod 10) := m]]"
    have s: "board_set b ri ci m = Inr ?b1"
      using Cons.prems(1) reach by (rule board_set_wrap)
    have w: "is_board10 ?b1" using Cons.prems(1) by (rule is_board10_update)
    have "\<not> list_all in_reach st" using Cons.prems(2) True by simp
    from Cons.IH [OF w this] show ?thesis using s by (simp add: t)
  qed
qed

lemma is_board10_generate: "is_board10 (generate_board 10 f)"
  by (simp add: is_board10_def generate_board_def list_all_iff)

lemma board_get_generate:
  "0 \<le> r \<and> r < 10 \<and> 0 \<le> c \<and> c < 10 \<Longrightarrow> board_get (generate_board 10 f) r c = Inr f"
proof -
  assume a: "0 \<le> r \<and> r < 10 \<and> 0 \<le> c \<and> c < 10"
  then have n: "nat r < 10" "nat c < 10" by auto
  have "board_get (generate_board 10 f) r c = Inr (generate_board 10 f ! nat r ! nat c)"
    using a by (simp add: board_get_10 is_board10_generate)
  then show ?thesis using n by (simp add: generate_board_def)
qed


lemma board10_ext:
  assumes a: "is_board10 a" and b: "is_board10 b"
    and e: "\<And>r c. 0 \<le> r \<and> r < 10 \<and> 0 \<le> c \<and> c < 10 \<Longrightarrow> board_get a r c = board_get b r c"
  shows "a = b"
proof (rule nth_equalityI)
  show "length a = length b" using a b by (simp add: is_board10_def)
next
  fix i
  assume "i < length a"
  then have i: "i < 10" using a by (simp add: is_board10_def)
  show "a ! i = b ! i"
  proof (rule nth_equalityI)
    show "length (a ! i) = length (b ! i)"
      using is_board10_row [OF a i] is_board10_row [OF b i] by simp
  next
    fix j
    assume "j < length (a ! i)"
    then have j: "j < 10" using is_board10_row [OF a i] by simp
    have rc: "0 \<le> int i \<and> int i < 10 \<and> 0 \<le> int j \<and> int j < 10" using i j by simp
    have "board_get a (int i) (int j) = Inr (a ! i ! j)"
      using board_get_10 [OF a, of "int i" "int j"] rc by simp
    moreover have "board_get b (int i) (int j) = Inr (b ! i ! j)"
      using board_get_10 [OF b, of "int i" "int j"] rc by simp
    ultimately show "a ! i ! j = b ! i ! j" using e [OF rc] by simp
  qed
qed

lemma last_write_fun:
  assumes "\<And>m ri ci. (m, ri, ci) \<in> set st \<Longrightarrow> 0 \<le> ri \<and> ri < 10 \<and> 0 \<le> ci \<and> ci < 10 \<and> m = F ri ci"
  shows "last_write st r c = (if \<exists>m. (m, r, c) \<in> set st then Some (F r c) else None)"
  using assms
proof (induction st)
  case Nil
  then show ?case by simp
next
  case (Cons t st)
  obtain m ri ci where t: "t = (m, ri, ci)" by (cases t) auto
  have h: "0 \<le> ri \<and> ri < 10 \<and> 0 \<le> ci \<and> ci < 10 \<and> m = F ri ci"
    using Cons.prems [of m ri ci] by (simp add: t)
  have ih: "last_write st r c = (if \<exists>m. (m, r, c) \<in> set st then Some (F r c) else None)"
    by (rule Cons.IH) (rule Cons.prems, simp)
  show ?case using h by (auto simp: t ih)
qed

lemma get_state_in_reach: "is_board10 g \<Longrightarrow> list_all in_reach (get_state g f)"
  unfolding list_all_iff
proof
  fix t
  assume g: "is_board10 g" and "t \<in> set (get_state g f)"
  then obtain m r c where t: "t = (m, r, c)" "(m, r, c) \<in> set (get_state g f)"
    by (cases t) auto
  then obtain i j where "i < length g" "j < length (g ! i)" "r = int i" "c = int j"
    unfolding set_get_state by blast
  then show "in_reach t"
    using g is_board10_row [OF g, of i] by (simp add: t in_reach_def is_board10_def)
qed

section \<open>Placement: the catalog and the bounds\<close>

text \<open>
  C10. A ship string that is not a key of \<open>SHIPS_LEN\<close> makes \<open>place_ship\<close> raise KeyError
  at the length lookup, whatever the board, the coordinate and the orientation are: no
  validation runs (a board on which validation would raise IndexError gives KeyError as
  well), nothing is written, and no rejection value is returned.
\<close>

theorem place_ship_unknown_kind:
  "SHIPS_LEN ship = None \<Longrightarrow> place_ship row col b ship orientation = (b, Inl KeyError)"
  by (simp add: place_ship_def)

theorem place_ship_unknown_kind_witness:
  "SHIPS_LEN ''Z'' = None \<and>
   place_ship 0 0 (generate_board 10 ''~'') ''Z'' ''h'' = (generate_board 10 ''~'', Inl KeyError)"
  using place_ship_unknown_kind [of "''Z''" 0 0 "generate_board 10 ''~''" "''h''"]
  by (simp add: SHIPS_LEN_def)

text \<open>
  C1. On the empty board the patrol boat (length 2) placed horizontally at \<open>(0,8)\<close> would
  occupy \<open>(0,8)\<close> and \<open>(0,9)\<close>, inside the board. \<open>validate_bounds\<close> compares
  \<open>col + ship_len < 10\<close>, so the placement is rejected and the board is returned as it was;
  the same placement one column to the left, at \<open>(0,7)\<close>, is the last one accepted, and the
  placement at \<open>(0,9)\<close> is rejected.
\<close>

theorem place_ship_last_column_rejected:
  "place_ship 0 8 (generate_board 10 ''~'') ''P'' ''h'' = (generate_board 10 ''~'', Inr False) \<and>
   place_ship 0 9 (generate_board 10 ''~'') ''P'' ''h'' = (generate_board 10 ''~'', Inr False) \<and>
   snd (place_ship 0 7 (generate_board 10 ''~'') ''P'' ''h'') = Inr True"
  by code_simp

section \<open>The radar\<close>

text \<open>
  C2. The filter of \<open>radar_scan\<close> tests \<open>c + t[0] > -1\<close> and \<open>r + t[1] < 10\<close>: the row offset
  is checked against the column and the column offset against the row, and neither
  \<open>r + t[0] > -1\<close> nor \<open>c + t[1] < 10\<close> is tested. On a board of ten rows of ten cells:
  after a miss at \<open>(0,9)\<close> the scan reads \<open>board[-1][8]\<close>, \<open>board[-1][9]\<close> and then
  \<open>board[-1][10]\<close>, which raises IndexError; after a miss at \<open>(5,0)\<close> the neighbour
  \<open>(4,0)\<close>, a ship cell, is filtered out and the scan answers False; after a miss at
  \<open>(0,5)\<close> the scan reads row \<open>-1\<close>, which is row 9, and answers True for a ship that lies
  nine rows away.
\<close>

theorem radar_scan_edge_failures:
  "radar_scan (fst (set_state (generate_board 10 ''~'') [(''@'', 0, 9)])) 0 9
     [''@'', ''X'', ''~''] = Inl IndexError \<and>
   radar_scan (fst (set_state (generate_board 10 ''~'')
       [(''P'', 3, 0), (''P'', 4, 0), (''@'', 5, 0)])) 5 0 [''@'', ''X'', ''~''] = Inr False \<and>
   radar_scan (fst (set_state (generate_board 10 ''~'')
       [(''@'', 0, 5), (''P'', 9, 5), (''P'', 9, 6)])) 0 5 [''@'', ''X'', ''~''] = Inr True"
  by code_simp

section \<open>Rejected placements\<close>

text \<open>
  C6. When \<open>place_ship\<close> does not succeed the board is what it was before the call. This
  covers every rejection (bounds, overlap, an orientation that is neither \<open>''v''\<close> nor
  \<open>''h''\<close>: all return False) and every exception as well: \<open>validate_bounds\<close> only reads,
  and once it has answered True every write of the run succeeds, so no call ends after a
  part of the run was written.
\<close>

theorem place_ship_atomic:
  "place_ship row col b ship ori = (b', out) \<Longrightarrow> out \<noteq> Inr True \<Longrightarrow> b' = b"
proof -
  assume p: "place_ship row col b ship ori = (b', out)" and o: "out \<noteq> Inr True"
  show "b' = b"
  proof (cases "SHIPS_LEN ship")
    case None
    with p show ?thesis by (simp add: place_ship_def)
  next
    case (Some n)
    show ?thesis
    proof (cases "validate_bounds b row col n ori ''~''")
      case (Inl e)
      with p Some show ?thesis by (simp add: place_ship_def)
    next
      case (Inr valid)
      show ?thesis
      proof (cases valid)
        case False
        with p Some Inr show ?thesis by (simp add: place_ship_def)
      next
        case True
        with Inr have vb: "validate_bounds b row col n ori ''~'' = Inr True" by simp
        from validate_bounds_True [OF vb] show ?thesis
        proof
          assume a: "ori = ''v'' \<and> row + n < 10 \<and> scan_v b row col ''~'' (py_range n) = Inr True"
          then obtain b1 where "put_v b row col ship (py_range n) = (b1, Inr ())"
            using put_v_total [of "py_range n" b row col ship] scan_v_True by blast
          with p Some vb a o show ?thesis by (simp add: place_ship_def)
        next
          assume a: "ori = ''h'' \<and> col + n < 10 \<and> scan_h b row col ''~'' (py_range n) = Inr True"
          then obtain b1 where "put_h b row col ship (py_range n) = (b1, Inr ())"
            using put_h_total [of "py_range n" b row col ship] scan_h_True by blast
          with p Some vb a o show ?thesis by (simp add: place_ship_def)
        qed
      qed
    qed
  qed
qed

theorem place_ship_atomic_witness:
  "place_ship 0 0 (fst (place_ship 0 2 (generate_board 10 ''~'') ''S'' ''v'')) ''B'' ''h'' =
     (fst (place_ship 0 2 (generate_board 10 ''~'') ''S'' ''v''), Inr False) \<and>
   (Inr False :: py_error + bool) \<noteq> Inr True"
proof -
  have r: "place_ship 0 0 (fst (place_ship 0 2 (generate_board 10 ''~'') ''S'' ''v'')) ''B'' ''h'' =
     (fst (place_ship 0 0 (fst (place_ship 0 2 (generate_board 10 ''~'') ''S'' ''v'')) ''B'' ''h''),
      Inr False)"
    by code_simp
  have n: "(Inr False :: py_error + bool) \<noteq> Inr True" by simp
  show ?thesis using place_ship_atomic [OF r n] r n by simp
qed

section \<open>Successful placements\<close>

text \<open>
  C8. On a board of ten rows of ten cells, with \<open>(row, col)\<close> on the board: when
  \<open>place_ship\<close> succeeds, the ship is in the catalog with a length \<open>n\<close>, the orientation
  is one of the two recognised ones, the run from \<open>(row, col)\<close> has exactly \<open>n\<close> cells, all
  of them on the board, each of them \<open>''~''\<close> before the call and the ship's marker after
  it, and every other cell of the board holds what it held before.
\<close>

theorem place_ship_success_frame:
  assumes wf: "is_board10 b" and row: "0 \<le> row" "row < 10" and col: "0 \<le> col" "col < 10"
    and p: "place_ship row col b ship orientation = (b', Inr True)"
  shows "\<exists>n. SHIPS_LEN ship = Some n \<and> (orientation = ''v'' \<or> orientation = ''h'') \<and>
     is_board10 b' \<and>
     card {(r, c). in_run orientation row col n r c} = nat n \<and>
     (\<forall>r c. in_run orientation row col n r c \<longrightarrow>
        0 \<le> r \<and> r < 10 \<and> 0 \<le> c \<and> c < 10 \<and>
        board_get b r c = Inr ''~'' \<and> board_get b' r c = Inr ship) \<and>
     (\<forall>r c. 0 \<le> r \<and> r < 10 \<and> 0 \<le> c \<and> c < 10 \<and> \<not> in_run orientation row col n r c \<longrightarrow>
        board_get b' r c = board_get b r c)"
proof -
  from p obtain n where n: "SHIPS_LEN ship = Some n"
    by (cases "SHIPS_LEN ship") (auto simp: place_ship_def)
  have n0: "0 \<le> n" using SHIPS_LEN_range [OF n] by simp
  have vb: "validate_bounds b row col n orientation ''~'' = Inr True"
    using p n by (auto simp: place_ship_def split: sum.splits if_splits)
  have card: "card {(r, c). in_run orientation row col n r c} = nat n"
    using n0 by (rule card_run)
  from validate_bounds_True [OF vb] show ?thesis
  proof
    assume a: "orientation = ''v'' \<and> row + n < 10 \<and> scan_v b row col ''~'' (py_range n) = Inr True"
    have rng: "\<And>i. i \<in> set (py_range n) \<Longrightarrow> 0 \<le> row + i \<and> row + i < 10"
      using a row by (auto simp: py_range_iff)
    from put_v_cells [OF wf col rng, of "py_range n" ship]
    obtain b1 where b1: "put_v b row col ship (py_range n) = (b1, Inr ())" "is_board10 b1"
      and cells: "\<And>r c. 0 \<le> r \<and> r < 10 \<and> 0 \<le> c \<and> c < 10 \<Longrightarrow>
        board_get b1 r c =
          (if c = col \<and> (\<exists>k\<in>set (py_range n). r = row + k) then Inr ship else board_get b r c)"
      by blast
    have eq: "b' = b1" using p n vb a b1 by (simp add: place_ship_def)
    have run: "\<And>r c. in_run orientation row col n r c \<longleftrightarrow>
        c = col \<and> (\<exists>k\<in>set (py_range n). r = row + k)"
    proof -
      fix r c
      have "(\<exists>k\<in>set (py_range n). r = row + k) \<longleftrightarrow> row \<le> r \<and> r < row + n"
        by (auto simp: py_range_iff intro: bexI [where x = "r - row"])
      then show "in_run orientation row col n r c \<longleftrightarrow>
        c = col \<and> (\<exists>k\<in>set (py_range n). r = row + k)"
        using a by (auto simp: in_run_def)
    qed
    have inb: "\<And>r c. in_run orientation row col n r c \<Longrightarrow> 0 \<le> r \<and> r < 10 \<and> 0 \<le> c \<and> c < 10"
      using a row col by (auto simp: in_run_def)
    have old: "\<And>r c. in_run orientation row col n r c \<Longrightarrow> board_get b r c = Inr ''~''"
    proof -
      fix r c
      assume "in_run orientation row col n r c"
      then obtain k where k: "k \<in> set (py_range n)" "r = row + k" "c = col"
        using run by blast
      have "scan_v b row col ''~'' (py_range n) = Inr True" using a by simp
      from scan_v_True [OF this k(1)] show "board_get b r c = Inr ''~''"
        using k by simp
    qed
    have new: "\<And>r c. in_run orientation row col n r c \<Longrightarrow> board_get b' r c = Inr ship"
      using inb cells by (auto simp: eq run)
    have frame: "\<And>r c. 0 \<le> r \<and> r < 10 \<and> 0 \<le> c \<and> c < 10 \<and> \<not> in_run orientation row col n r c \<Longrightarrow>
        board_get b' r c = board_get b r c"
      using cells by (auto simp: eq run)
    show ?thesis
      using n a b1(2) card inb old new frame by (intro exI [where x = n]) (simp add: eq)
  next
    assume a: "orientation = ''h'' \<and> col + n < 10 \<and> scan_h b row col ''~'' (py_range n) = Inr True"
    have rng: "\<And>i. i \<in> set (py_range n) \<Longrightarrow> 0 \<le> col + i \<and> col + i < 10"
      using a col by (auto simp: py_range_iff)
    from put_h_cells [OF wf row rng, of "py_range n" ship]
    obtain b1 where b1: "put_h b row col ship (py_range n) = (b1, Inr ())" "is_board10 b1"
      and cells: "\<And>r c. 0 \<le> r \<and> r < 10 \<and> 0 \<le> c \<and> c < 10 \<Longrightarrow>
        board_get b1 r c =
          (if r = row \<and> (\<exists>k\<in>set (py_range n). c = col + k) then Inr ship else board_get b r c)"
      by blast
    have eq: "b' = b1" using p n vb a b1 by (simp add: place_ship_def)
    have run: "\<And>r c. in_run orientation row col n r c \<longleftrightarrow>
        r = row \<and> (\<exists>k\<in>set (py_range n). c = col + k)"
    proof -
      fix r c
      have "(\<exists>k\<in>set (py_range n). c = col + k) \<longleftrightarrow> col \<le> c \<and> c < col + n"
        by (auto simp: py_range_iff intro: bexI [where x = "c - col"])
      then show "in_run orientation row col n r c \<longleftrightarrow>
        r = row \<and> (\<exists>k\<in>set (py_range n). c = col + k)"
        using a by (auto simp: in_run_def)
    qed
    have inb: "\<And>r c. in_run orientation row col n r c \<Longrightarrow> 0 \<le> r \<and> r < 10 \<and> 0 \<le> c \<and> c < 10"
      using a row col by (auto simp: in_run_def)
    have old: "\<And>r c. in_run orientation row col n r c \<Longrightarrow> board_get b r c = Inr ''~''"
    proof -
      fix r c
      assume "in_run orientation row col n r c"
      then obtain k where k: "k \<in> set (py_range n)" "c = col + k" "r = row"
        using run by blast
      have "scan_h b row col ''~'' (py_range n) = Inr True" using a by simp
      from scan_h_True [OF this k(1)] show "board_get b r c = Inr ''~''"
        using k by simp
    qed
    have new: "\<And>r c. in_run orientation row col n r c \<Longrightarrow> board_get b' r c = Inr ship"
      using inb cells by (auto simp: eq run)
    have frame: "\<And>r c. 0 \<le> r \<and> r < 10 \<and> 0 \<le> c \<and> c < 10 \<and> \<not> in_run orientation row col n r c \<Longrightarrow>
        board_get b' r c = board_get b r c"
      using cells by (auto simp: eq run)
    show ?thesis
      using n a b1(2) card inb old new frame by (intro exI [where x = n]) (simp add: eq)
  qed
qed

theorem place_ship_success_frame_witness:
  "is_board10 (generate_board 10 ''~'') \<and>
   place_ship 2 3 (generate_board 10 ''~'') ''S'' ''h'' =
     (fst (place_ship 2 3 (generate_board 10 ''~'') ''S'' ''h''), Inr True) \<and>
   board_get (fst (place_ship 2 3 (generate_board 10 ''~'') ''S'' ''h'')) 2 5 = Inr ''S'' \<and>
   board_get (fst (place_ship 2 3 (generate_board 10 ''~'') ''S'' ''h'')) 2 6 = Inr ''~''"
proof -
  let ?E = "generate_board 10 ''~''"
  let ?F = "fst (place_ship 2 3 ?E ''S'' ''h'')"
  have w: "is_board10 ?E" by code_simp
  have p: "place_ship 2 3 ?E ''S'' ''h'' = (?F, Inr True)" by code_simp
  have n: "SHIPS_LEN ''S'' = Some 3" by (simp add: SHIPS_LEN_def)
  have e: "board_get ?E 2 6 = Inr ''~''" by code_simp
  from place_ship_success_frame [OF w _ _ _ _ p]
  have "(\<forall>r c. in_run ''h'' 2 3 3 r c \<longrightarrow> board_get ?F r c = Inr ''S'') \<and>
     (\<forall>r c. 0 \<le> r \<and> r < 10 \<and> 0 \<le> c \<and> c < 10 \<and> \<not> in_run ''h'' 2 3 3 r c \<longrightarrow>
        board_get ?F r c = board_get ?E r c)"
    using n by auto
  then have "board_get ?F 2 5 = Inr ''S''" "board_get ?F 2 6 = board_get ?E 2 6"
    by (simp_all add: in_run_def)
  then show ?thesis using w p e by simp
qed

section \<open>Shots are permanent\<close>

text \<open>
  C7. Let the cell at \<open>(r, c)\<close> hold \<open>''@''\<close> (a miss) or \<open>''X''\<close> (a hit). A shot at
  \<open>(r, c)\<close> takes the branch "already targeted": the board is returned as it was, so
  every cell and the turn counter (the number of \<open>''@''\<close> and \<open>''X''\<close> cells plus one) are
  unchanged. A shot at any coordinate \<open>(r', c')\<close> leaves the cell at \<open>(r, c)\<close> as it is, and
  so does a whole session, whatever the player types, the radar setting and the way the
  session ends.
\<close>

theorem shots_permanent:
  assumes "board_get b r c = Inr x" and "x = ''@'' \<or> x = ''X''"
  shows "resolve_shot b radar filler r c = (b, Inr (AlreadyTargeted, False)) \<and>
         get_turn (fst (resolve_shot b radar filler r c)) [''@'', ''X''] = get_turn b [''@'', ''X''] \<and>
         board_get (fst (resolve_shot b radar filler r' c')) r c = Inr x \<and>
         board_get (fst (game_loop b radar filler turns inputs)) r c = Inr x"
proof -
  have 1: "resolve_shot b radar filler r c = (b, Inr (AlreadyTargeted, False))"
    using assms by (rule resolve_shot_targeted)
  have 3: "board_get (fst (resolve_shot b radar filler r' c')) r c = Inr x"
    using assms by (rule resolve_shot_keeps) (rule prod.collapse [symmetric])
  have 4: "board_get (fst (game_loop b radar filler turns inputs)) r c = Inr x"
    using assms by (rule game_loop_keeps) (rule prod.collapse [symmetric])
  show ?thesis using 1 3 4 by simp
qed

theorem shots_permanent_witness:
  "board_get (fst (set_state (generate_board 10 ''~'') [(''P'', 0, 0), (''P'', 0, 1), (''@'', 1, 1)]))
     1 1 = Inr ''@'' \<and>
   resolve_shot (fst (set_state (generate_board 10 ''~'') [(''P'', 0, 0), (''P'', 0, 1), (''@'', 1, 1)]))
     True ''~'' 1 1 =
     (fst (set_state (generate_board 10 ''~'') [(''P'', 0, 0), (''P'', 0, 1), (''@'', 1, 1)]),
      Inr (AlreadyTargeted, False)) \<and>
   board_get (fst (game_loop
       (fst (set_state (generate_board 10 ''~'') [(''P'', 0, 0), (''P'', 0, 1), (''@'', 1, 1)]))
       True ''~'' 20 [''1'', ''1'', ''0'', ''0'', ''1'', ''2''])) 1 1 = Inr ''@''"
proof -
  let ?B = "fst (set_state (generate_board 10 ''~'') [(''P'', 0, 0), (''P'', 0, 1), (''@'', 1, 1)])"
  have g: "board_get ?B 1 1 = Inr ''@''" by code_simp
  have x: "''@'' = ''@'' \<or> ''@'' = ''X''" by simp
  from shots_permanent [OF g x, of True "''~''" 1 1 20 "[''1'', ''1'', ''0'', ''0'', ''1'', ''2'']"]
  show ?thesis using g by simp
qed

section \<open>The win condition\<close>

text \<open>
  C9. \<open>win_condition\<close> holds exactly when every cell is a hit, a miss or the filler, that
  is when no cell is occupied by a ship; and exactly when every triple of \<open>get_state\<close>
  carries the hit or the miss marker. On a board whose cells are catalog markers, hits,
  misses and fillers (every board the game can reach) this is the same as: no triple of
  \<open>get_state\<close> carries a marker of the catalog.
\<close>

theorem is_won_characterisations:
  "(win_condition g [''X'', ''@'', ''~''] \<longleftrightarrow>
      (\<forall>row\<in>set g. \<forall>x\<in>set row. x = ''X'' \<or> x = ''@'' \<or> x = ''~'')) \<and>
   (win_condition g [''X'', ''@'', ''~''] \<longleftrightarrow>
      (\<forall>(m, r, c)\<in>set (get_state g filler). m = ''X'' \<or> m = ''@'')) \<and>
   ((\<forall>row\<in>set g. \<forall>x\<in>set row. x \<in> dom SHIPS_LEN \<or> x = ''X'' \<or> x = ''@'' \<or> x = ''~'') \<longrightarrow>
      (win_condition g [''X'', ''@'', ''~''] \<longleftrightarrow>
         (\<forall>(m, r, c)\<in>set (get_state g filler). m \<notin> dom SHIPS_LEN)))"
proof (intro conjI impI)
  show "win_condition g [''X'', ''@'', ''~''] \<longleftrightarrow>
      (\<forall>row\<in>set g. \<forall>x\<in>set row. x = ''X'' \<or> x = ''@'' \<or> x = ''~'')"
    unfolding win_condition_concat by simp
next
  show "win_condition g [''X'', ''@'', ''~''] \<longleftrightarrow>
      (\<forall>(m, r, c)\<in>set (get_state g filler). m = ''X'' \<or> m = ''@'')"
    unfolding win_condition_concat ball_get_state by blast
next
  assume "\<forall>row\<in>set g. \<forall>x\<in>set row. x \<in> dom SHIPS_LEN \<or> x = ''X'' \<or> x = ''@'' \<or> x = ''~''"
  then have a: "\<forall>x\<in>set (concat g). x \<in> dom SHIPS_LEN \<or> x = ''X'' \<or> x = ''@'' \<or> x = ''~''"
    by simp
  show "win_condition g [''X'', ''@'', ''~''] \<longleftrightarrow>
         (\<forall>(m, r, c)\<in>set (get_state g filler). m \<notin> dom SHIPS_LEN)"
    unfolding win_condition_concat ball_get_state
  proof
    assume "\<forall>x\<in>set (concat g). x = ''X'' \<or> x = ''@'' \<or> x = ''~''"
    then show "\<forall>x\<in>set (concat g). x \<noteq> ''~'' \<longrightarrow> x \<notin> dom SHIPS_LEN"
      using catalog_not_sentinel by blast
  next
    assume "\<forall>x\<in>set (concat g). x \<noteq> ''~'' \<longrightarrow> x \<notin> dom SHIPS_LEN"
    then show "\<forall>x\<in>set (concat g). x = ''X'' \<or> x = ''@'' \<or> x = ''~''"
      using a by blast
  qed
qed

theorem is_won_characterisations_witness:
  "win_condition (fst (set_state (generate_board 10 ''~'') [(''X'', 0, 0), (''@'', 3, 4)]))
     [''X'', ''@'', ''~''] \<and>
   list_all (\<lambda>(m, r, c). m \<notin> dom SHIPS_LEN)
     (get_state (fst (set_state (generate_board 10 ''~'') [(''X'', 0, 0), (''@'', 3, 4)])) ''~'') \<and>
   \<not> win_condition (fst (set_state (generate_board 10 ''~'') [(''X'', 0, 0), (''D'', 3, 4)]))
     [''X'', ''@'', ''~''] \<and>
   \<not> list_all (\<lambda>(m, r, c). m = ''X'' \<or> m = ''@'')
     (get_state (fst (set_state (generate_board 10 ''~'') [(''X'', 0, 0), (''D'', 3, 4)])) ''~'')"
proof -
  let ?G = "fst (set_state (generate_board 10 ''~'') [(''X'', 0, 0), (''@'', 3, 4)])"
  let ?H = "fst (set_state (generate_board 10 ''~'') [(''X'', 0, 0), (''D'', 3, 4)])"
  have w: "win_condition ?G [''X'', ''@'', ''~'']" by code_simp
  have n: "\<not> win_condition ?H [''X'', ''@'', ''~'']" by code_simp
  have a: "\<forall>row\<in>set ?G. \<forall>x\<in>set row. x \<in> dom SHIPS_LEN \<or> x = ''X'' \<or> x = ''@'' \<or> x = ''~''"
    using w is_won_characterisations [of ?G "''~''"] by blast
  have g: "\<forall>(m, r, c)\<in>set (get_state ?G ''~''). m \<notin> dom SHIPS_LEN"
    using w a is_won_characterisations [of ?G "''~''"] by blast
  have h: "\<not> (\<forall>(m, r, c)\<in>set (get_state ?H ''~''). m = ''X'' \<or> m = ''@'')"
    using n is_won_characterisations [of ?H "''~''"] by blast
  show ?thesis
    using w n g h unfolding list_all_iff by blast
qed

section \<open>The state codec: saving and loading\<close>

text \<open>
  C5. For every board \<open>g\<close> of ten rows of ten cells, whatever its cells hold, loading the
  triples that \<open>get_state\<close> gives for \<open>g\<close> into a fresh board filled with \<open>''~''\<close> gives
  \<open>g\<close> back. (\<open>get_state\<close> ignores its filler argument.)
\<close>

theorem codec_round_trip:
  assumes g: "is_board10 g"
  shows "io_load_board (get_state g filler) ''~'' = Inr g"
proof -
  let ?st = "get_state g filler"
  from set_state_cells [OF is_board10_generate get_state_in_reach [OF g], of "''~''" filler]
  obtain b' where s: "set_state (generate_board 10 ''~'') ?st = (b', Inr ())" and w: "is_board10 b'"
    and c: "\<And>r c. 0 \<le> r \<and> r < 10 \<and> 0 \<le> c \<and> c < 10 \<Longrightarrow>
        board_get b' r c =
          (case last_write ?st r c of Some m \<Rightarrow> Inr m
           | None \<Rightarrow> board_get (generate_board 10 ''~'') r c)"
    by blast
  have lw: "\<And>r c. last_write ?st r c =
      (if \<exists>m. (m, r, c) \<in> set ?st then Some (g ! nat r ! nat c) else None)"
  proof (rule last_write_fun)
    fix m ri ci
    assume "(m, ri, ci) \<in> set ?st"
    then obtain i j where ij: "i < length g" "j < length (g ! i)" "ri = int i" "ci = int j"
      "m = g ! i ! j" unfolding set_get_state by blast
    then show "0 \<le> ri \<and> ri < 10 \<and> 0 \<le> ci \<and> ci < 10 \<and> m = g ! nat ri ! nat ci"
      using g is_board10_row [OF g, of i] by (simp add: is_board10_def)
  qed
  have "b' = g"
  proof (rule board10_ext [OF w g])
    fix r c :: int
    assume rc: "0 \<le> r \<and> r < 10 \<and> 0 \<le> c \<and> c < 10"
    have gg: "board_get g r c = Inr (g ! nat r ! nat c)"
      using board_get_10 [OF g, of r c] rc by simp
    have l: "nat r < length g" "nat c < length (g ! nat r)"
      using g is_board10_row [OF g, of "nat r"] rc by (auto simp: is_board10_def)
    have ex: "(\<exists>m. (m, r, c) \<in> set ?st) \<longleftrightarrow> g ! nat r ! nat c \<noteq> ''~''"
    proof
      assume "\<exists>m. (m, r, c) \<in> set ?st"
      then obtain m i j where "r = int i" "c = int j" "m = g ! i ! j" "m \<noteq> ''~''"
        unfolding set_get_state by blast
      then show "g ! nat r ! nat c \<noteq> ''~''" by simp
    next
      assume n: "g ! nat r ! nat c \<noteq> ''~''"
      have "(g ! nat r ! nat c, r, c) \<in> set ?st"
        unfolding set_get_state using l n rc
        by (intro exI [where x = "nat r"] exI [where x = "nat c"]) simp
      then show "\<exists>m. (m, r, c) \<in> set ?st" by blast
    qed
    show "board_get b' r c = board_get g r c"
      unfolding c [OF rc] lw gg ex by (simp add: board_get_generate rc)
  qed
  then show ?thesis using s by (simp add: io_load_board_def)
qed

theorem codec_round_trip_witness:
  "is_board10 (fst (set_state (generate_board 10 ''~'')
      [(''P'', 0, 0), (''P'', 0, 1), (''X'', 5, 5), (''@'', 2, 2)])) \<and>
   io_load_board (get_state (fst (set_state (generate_board 10 ''~'')
      [(''P'', 0, 0), (''P'', 0, 1), (''X'', 5, 5), (''@'', 2, 2)])) ''~'') ''~'' =
     Inr (fst (set_state (generate_board 10 ''~'')
      [(''P'', 0, 0), (''P'', 0, 1), (''X'', 5, 5), (''@'', 2, 2)]))"
proof -
  have w: "is_board10 (fst (set_state (generate_board 10 ''~'')
      [(''P'', 0, 0), (''P'', 0, 1), (''X'', 5, 5), (''@'', 2, 2)]))"
    by code_simp
  show ?thesis using codec_round_trip [OF w, of "''~''"] w by simp
qed

text \<open>
  Loading is not validated. The records \<open>(''Z'', 0, 0)\<close> and \<open>(''A'', -1, -1)\<close> carry a
  marker that no ship, hit or miss uses and a coordinate outside \<open>[0, 10)\<close>; the load
  succeeds, with \<open>''Z''\<close> in the cell \<open>(0, 0)\<close> and \<open>''A''\<close> in the cell \<open>(9, 9)\<close>.
\<close>

theorem io_load_board_unchecked_counterexample:
  "io_load_board [(''Z'', 0, 0), (''A'', - 1, - 1)] ''~'' =
     Inr ((generate_board 10 ''~'')
            [0 := ''Z'' # replicate 9 ''~'', 9 := replicate 9 ''~'' @ [''A'']])"
  by code_simp

text \<open>
  C4, as the code has it. \<open>io_load_board\<close> raises IndexError exactly when some triple has a
  row or a column outside \<open>[-10, 10)\<close>, and raises nothing else. When every triple is in
  reach the load succeeds with a board of ten rows of ten cells in which every cell holds
  the marker of the last triple that addresses it (a coordinate in \<open>[-10, 0)\<close> counting
  from the end), or the filler when no triple does: each triple is written as it is, the
  marker is never looked at, and nothing is checked about the ships.
\<close>

theorem io_load_board_unvalidated:
  "(io_load_board st f = Inl IndexError \<longleftrightarrow> \<not> list_all in_reach st) \<and>
   (list_all in_reach st \<longrightarrow>
      (\<exists>b. io_load_board st f = Inr b \<and> is_board10 b \<and>
         (\<forall>r c. 0 \<le> r \<and> r < 10 \<and> 0 \<le> c \<and> c < 10 \<longrightarrow>
            board_get b r c = Inr (case last_write st r c of Some m \<Rightarrow> m | None \<Rightarrow> f))))"
proof -
  have ok: "list_all in_reach st \<Longrightarrow>
      \<exists>b. io_load_board st f = Inr b \<and> is_board10 b \<and>
         (\<forall>r c. 0 \<le> r \<and> r < 10 \<and> 0 \<le> c \<and> c < 10 \<longrightarrow>
            board_get b r c = Inr (case last_write st r c of Some m \<Rightarrow> m | None \<Rightarrow> f))"
  proof -
    assume a: "list_all in_reach st"
    from set_state_cells [OF is_board10_generate a, of f]
    obtain b' where s: "set_state (generate_board 10 f) st = (b', Inr ())" and w: "is_board10 b'"
      and c: "\<And>r c. 0 \<le> r \<and> r < 10 \<and> 0 \<le> c \<and> c < 10 \<Longrightarrow>
        board_get b' r c =
          (case last_write st r c of Some m \<Rightarrow> Inr m | None \<Rightarrow> board_get (generate_board 10 f) r c)"
      by blast
    have "\<forall>r c. 0 \<le> r \<and> r < 10 \<and> 0 \<le> c \<and> c < 10 \<longrightarrow>
            board_get b' r c = Inr (case last_write st r c of Some m \<Rightarrow> m | None \<Rightarrow> f)"
      by (simp add: c board_get_generate split: option.splits)
    then show ?thesis using s w by (simp add: io_load_board_def)
  qed
  have bad: "\<not> list_all in_reach st \<Longrightarrow> io_load_board st f = Inl IndexError"
  proof -
    assume "\<not> list_all in_reach st"
    from set_state_fails [OF is_board10_generate this, of f]
    show ?thesis by (auto simp: io_load_board_def)
  qed
  show ?thesis using ok bad by (cases "list_all in_reach st") auto
qed

theorem io_load_board_unvalidated_witness:
  "list_all in_reach [(''Z'', 0, 0), (''A'', - 1, - 1)] \<and>
   (\<exists>b. io_load_board [(''Z'', 0, 0), (''A'', - 1, - 1)] ''~'' = Inr b \<and>
      board_get b 0 0 = Inr ''Z'' \<and> board_get b 9 9 = Inr ''A'' \<and> board_get b 4 4 = Inr ''~'') \<and>
   \<not> list_all in_reach [(''A'', 10, 0)] \<and>
   io_load_board [(''A'', 10, 0)] ''~'' = Inl IndexError"
proof -
  have a: "list_all in_reach [(''Z'', 0, 0), (''A'', - 1, - 1)]"
    by (simp add: in_reach_def)
  have n: "\<not> list_all in_reach [(''A'', 10, 0)]"
    by (simp add: in_reach_def)
  from io_load_board_unvalidated [of "[(''Z'', 0, 0), (''A'', - 1, - 1)]" "''~''"] a
  obtain b where b: "io_load_board [(''Z'', 0, 0), (''A'', - 1, - 1)] ''~'' = Inr b"
    and c: "\<And>r c. 0 \<le> r \<and> r < 10 \<and> 0 \<le> c \<and> c < 10 \<Longrightarrow>
       board_get b r c =
         Inr (case last_write [(''Z'', 0, 0), (''A'', - 1, - 1)] r c of Some m \<Rightarrow> m | None \<Rightarrow> ''~'')"
    by blast
  have "board_get b 0 0 = Inr ''Z''" "board_get b 9 9 = Inr ''A''" "board_get b 4 4 = Inr ''~''"
    by (simp_all add: c)
  then show ?thesis
    using a n b io_load_board_unvalidated [of "[(''A'', 10, 0)]" "''~''"] by simp
qed

section \<open>The turn limit\<close>

text \<open>
  C3. \<open>get_turn\<close> is the number of hit and miss cells plus one, and \<open>game_loop\<close> ends the
  session when \<open>get_turn\<close> equals the limit, before it asks for a shot. With the limit 20
  and one patrol boat on the board, twenty shots at distinct empty cells are typed: the
  session ends out of ammunition with nineteen misses on the board, the twentieth shot
  (at \<open>(2, 9)\<close>) never read. Nineteen typed shots end the session in the same way;
  after eighteen the loop still waits for input.
\<close>

theorem out_of_ammo_after_19_shots:
  "game_loop (fst (place_ship 0 0 (generate_board 10 ''~'') ''P'' ''h'')) False ''~'' 20
     [''1'', ''0'', ''1'', ''1'', ''1'', ''2'', ''1'', ''3'', ''1'', ''4'', ''1'',
     ''5'', ''1'', ''6'', ''1'', ''7'', ''1'', ''8'', ''1'', ''9'', ''2'', ''0'',
     ''2'', ''1'', ''2'', ''2'', ''2'', ''3'', ''2'', ''4'', ''2'', ''5'', ''2'',
     ''6'', ''2'', ''7'', ''2'', ''8'', ''2'', ''9''] =
   (fst (set_state (fst (place_ship 0 0 (generate_board 10 ''~'') ''P'' ''h''))
      [(''@'', 1, 0), (''@'', 1, 1), (''@'', 1, 2), (''@'', 1, 3), (''@'', 1, 4),
      (''@'', 1, 5), (''@'', 1, 6), (''@'', 1, 7), (''@'', 1, 8), (''@'', 1, 9),
      (''@'', 2, 0), (''@'', 2, 1), (''@'', 2, 2), (''@'', 2, 3), (''@'', 2, 4),
      (''@'', 2, 5), (''@'', 2, 6), (''@'', 2, 7), (''@'', 2, 8)]), OutOfAmmo) \<and>
   snd (game_loop (fst (place_ship 0 0 (generate_board 10 ''~'') ''P'' ''h'')) False ''~'' 20
     [''1'', ''0'', ''1'', ''1'', ''1'', ''2'', ''1'', ''3'', ''1'', ''4'', ''1'',
     ''5'', ''1'', ''6'', ''1'', ''7'', ''1'', ''8'', ''1'', ''9'', ''2'', ''0'',
     ''2'', ''1'', ''2'', ''2'', ''2'', ''3'', ''2'', ''4'', ''2'', ''5'', ''2'',
     ''6'', ''2'', ''7'', ''2'', ''8'']) = OutOfAmmo \<and>
   snd (game_loop (fst (place_ship 0 0 (generate_board 10 ''~'') ''P'' ''h'')) False ''~'' 20
     [''1'', ''0'', ''1'', ''1'', ''1'', ''2'', ''1'', ''3'', ''1'', ''4'', ''1'',
     ''5'', ''1'', ''6'', ''1'', ''7'', ''1'', ''8'', ''1'', ''9'', ''2'', ''0'',
     ''2'', ''1'', ''2'', ''2'', ''2'', ''3'', ''2'', ''4'', ''2'', ''5'', ''2'',
     ''6'', ''2'', ''7'']) = AwaitingInput"
  by code_simp

end
